theory Spec2Isabelle
  imports Main "HOL-Library.Word"
begin

section \<open>Tape, cursor and the standard streams\<close>

text \<open>
  The interpreter keeps two globals: \<^verbatim>\<open>char memory[MEMORY_SIZE]\<close> and the pointer
  \<^verbatim>\<open>char *current_cell\<close> into it. The pointer is modelled by its offset
  \<^verbatim>\<open>current_cell - memory\<close>. A cell is a C \<^verbatim>\<open>char\<close>, an 8-bit word whose
  arithmetic wraps. The standard input still to be read and the standard output written
  so far are part of the state, since \<^verbatim>\<open>getchar\<close> and \<^verbatim>\<open>printf\<close> act on them.

  A command (\<^verbatim>\<open>char *command\<close>) is modelled by the list of its characters before the
  terminating NUL. Lengths and the \<^verbatim>\<open>int balance\<close> counters are unbounded here: a
  command is assumed shorter than \<open>2 ^ 31\<close> characters.
\<close>

definition MEMORY_SIZE :: nat where
  "MEMORY_SIZE = 256"

definition INVALID_BLOCK :: int where
  "INVALID_BLOCK = - 1"

definition CLOSED_BLOCK :: int where
  "CLOSED_BLOCK = 0"

definition OPENED_BLOCK :: int where
  "OPENED_BLOCK = 1"

definition EOF :: int where
  "EOF = - 1"

record interp =
  memory :: "8 word list"
  current_cell :: nat
  stdin :: string
  stdout :: string

definition initial :: interp where
  "initial = \<lparr>memory = replicate MEMORY_SIZE 0, current_cell = 0, stdin = [], stdout = []\<rparr>"

text \<open>
  What C leaves undefined is a fault of the model: dereferencing \<^verbatim>\<open>current_cell\<close> when it
  points one past the array, using the null pointer that \<^verbatim>\<open>strchr\<close> or
  \<^verbatim>\<open>read_block\<close> returned, and copying a block whose closing index is
  \<^verbatim>\<open>(size_t) INVALID_BLOCK\<close>.
\<close>

datatype fault = OutOfBoundsAccess | NullDereference | BadBlockIndex

definition load :: "interp \<Rightarrow> 8 word" where
  "load s = memory s ! current_cell s"

definition store :: "8 word \<Rightarrow> interp \<Rightarrow> interp" where
  "store v s = s\<lparr>memory := (memory s)[current_cell s := v]\<rparr>"

definition printf :: "string \<Rightarrow> interp \<Rightarrow> interp" where
  "printf text s = s\<lparr>stdout := stdout s @ text\<rparr>"

definition getchar :: "interp \<Rightarrow> int \<times> interp" where
  "getchar s = (case stdin s of [] \<Rightarrow> (EOF, s) | c # cs \<Rightarrow> (of_char c, s\<lparr>stdin := cs\<rparr>))"

definition end_of_memory_msg :: string where
  "end_of_memory_msg = ''Error! current cell is at the end of memory'' @ [CHR 0x0A]"

definition begining_of_memory_msg :: string where
  "begining_of_memory_msg = ''Error! current cell is in the begining of memory'' @ [CHR 0x0A]"

definition unbalanced_blocks_msg :: string where
  "unbalanced_blocks_msg = ''Error! unbalanced blocks'' @ [CHR 0x0A]"

definition unbalanced_brackets_msg :: string where
  "unbalanced_brackets_msg = ''Error! unbalanced brackets'' @ [CHR 0x0A]"

section \<open>parse_command: the flat dispatch\<close>

text \<open>
  The body of the \<^verbatim>\<open>for\<close> loop is one \<^verbatim>\<open>switch\<close>. Each case either ends in
  \<^verbatim>\<open>break\<close>, and the loop goes on with the next character, or in \<^verbatim>\<open>return\<close>, and
  \<^verbatim>\<open>parse_command\<close> is left at once.
\<close>

datatype flow = Break | Return

definition switch :: "char \<Rightarrow> interp \<Rightarrow> fault + (flow \<times> interp)" where
  "switch c s =
    (if c = CHR ''+'' then
       (if current_cell s < MEMORY_SIZE then Inr (Break, store (load s + 1) s)
        else Inl OutOfBoundsAccess)
     else if c = CHR ''-'' then
       (if current_cell s < MEMORY_SIZE then Inr (Break, store (load s - 1) s)
        else Inl OutOfBoundsAccess)
     else if c = CHR ''>'' then
       (if int MEMORY_SIZE - int (current_cell s) > 0
        then Inr (Break, s\<lparr>current_cell := current_cell s + 1\<rparr>)
        else Inr (Return, printf end_of_memory_msg s))
     else if c = CHR ''<'' then
       (if int (current_cell s) > 0
        then Inr (Break, s\<lparr>current_cell := current_cell s - 1\<rparr>)
        else Inr (Return, printf begining_of_memory_msg s))
     else if c = CHR ''.'' then
       (if current_cell s < MEMORY_SIZE then Inr (Break, printf [char_of (unat (load s))] s)
        else Inl OutOfBoundsAccess)
     else if c = CHR '','' then
       (let (ch, s1) = getchar s in
        if current_cell s1 < MEMORY_SIZE then
          (let s2 = store (word_of_int ch) s1
           in Inr (Break, if load s2 = 10 then store 0 s2 else s2))
        else Inl OutOfBoundsAccess)
     else Inr (Break, s))"

fun parse_command :: "string \<Rightarrow> interp \<Rightarrow> fault + interp" where
  "parse_command [] s = Inr s"
| "parse_command (c # cs) s =
    (case switch c s of
       Inl f \<Rightarrow> Inl f
     | Inr (Return, s') \<Rightarrow> Inr s'
     | Inr (Break, s') \<Rightarrow> parse_command cs s')"


text \<open>What the interpreter can read back: the tape, the cursor and the pending input.\<close>

definition tape_state :: "interp \<Rightarrow> 8 word list \<times> nat \<times> string" where
  "tape_state s = (memory s, current_cell s, stdin s)"

section \<open>The bracket scans\<close>

fun is_open_block_loop :: "int \<Rightarrow> string \<Rightarrow> int" where
  "is_open_block_loop balance [] = (if balance > 0 then OPENED_BLOCK else CLOSED_BLOCK)"
| "is_open_block_loop balance (c # cs) =
    (if c = CHR ''['' then is_open_block_loop (balance + 1) cs
     else if c = CHR '']'' then
       (if balance - 1 < 0 then INVALID_BLOCK else is_open_block_loop (balance - 1) cs)
     else is_open_block_loop balance cs)"

definition is_open_block :: "string \<Rightarrow> int" where
  "is_open_block command = is_open_block_loop 0 command"

fun find_closing_loop :: "int \<Rightarrow> nat \<Rightarrow> string \<Rightarrow> int" where
  "find_closing_loop balance i [] = INVALID_BLOCK"
| "find_closing_loop balance i (c # cs) =
    (if c = CHR ''['' then find_closing_loop (balance + 1) (i + 1) cs
     else if c = CHR '']'' then
       (if balance - 1 = 0 then int i else find_closing_loop (balance - 1) (i + 1) cs)
     else find_closing_loop balance (i + 1) cs)"

definition find_closing :: "string \<Rightarrow> int" where
  "find_closing command = find_closing_loop 0 0 command"

text \<open>\<^verbatim>\<open>strchr\<close>, as the offset of the first occurrence; \<open>None\<close> is the null pointer.\<close>

fun strchr :: "string \<Rightarrow> char \<Rightarrow> nat option" where
  "strchr [] c = None"
| "strchr (x # xs) c = (if x = c then Some 0 else map_option Suc (strchr xs c))"

section \<open>parse_block: prefix, loop, suffix\<close>

text \<open>
  The \<^verbatim>\<open>while\<close> loop of \<^verbatim>\<open>parse_block\<close> need not end, so both functions take fuel:
  one unit for each call of \<^verbatim>\<open>parse_block\<close> and for each test of the loop condition.
  \<open>None\<close> means the fuel ran out.
\<close>

fun then_run :: "(fault + interp) option \<Rightarrow> (interp \<Rightarrow> (fault + interp) option)
    \<Rightarrow> (fault + interp) option" where
  "then_run None k = None"
| "then_run (Some (Inl f)) k = Some (Inl f)"
| "then_run (Some (Inr s)) k = k s"

fun parse_block :: "nat \<Rightarrow> string \<Rightarrow> interp \<Rightarrow> (fault + interp) option"
  and block_while :: "nat \<Rightarrow> string \<Rightarrow> interp \<Rightarrow> (fault + interp) option" where
  "parse_block 0 command s = None"
| "parse_block (Suc n) command s =
    (if command = [] then Some (Inr s)
     else case strchr command CHR ''['' of
       None \<Rightarrow> Some (Inl NullDereference)
     | Some start_block_index \<Rightarrow>
         then_run (Some (if start_block_index \<noteq> 0
                         then parse_command (take start_block_index command) s else Inr s))
           (\<lambda>s1. if find_closing command = INVALID_BLOCK then Some (Inl BadBlockIndex)
             else let end_block_index = nat (find_closing command) in
               then_run (block_while n
                   (take (end_block_index - start_block_index - 1)
                      (drop (start_block_index + 1) command)) s1)
                 (\<lambda>s2. let len = length command - end_block_index in
                    if len > 1 then
                      (let block_string = take (len - 1) (drop (end_block_index + 1) command)
                       in if strchr block_string CHR ''['' \<noteq> None
                          then parse_block n block_string s2
                          else Some (parse_command block_string s2))
                    else Some (Inr s2))))"
| "block_while 0 block_string s = None"
| "block_while (Suc n) block_string s =
    (if current_cell s < MEMORY_SIZE then
       (if load s \<noteq> 0 then
          then_run (if strchr block_string CHR ''['' \<noteq> None
                    then parse_block n block_string s
                    else Some (parse_command block_string s))
            (block_while n block_string)
        else Some (Inr s))
     else Some (Inl OutOfBoundsAccess))"

section \<open>Reading lines and the body of main's loop\<close>

text \<open>
  \<^verbatim>\<open>get_user_input\<close> reads up to a newline or the end of input. Its \<^verbatim>\<open>char ch\<close> is
  compared with \<^verbatim>\<open>EOF\<close>, so with a signed \<^verbatim>\<open>char\<close> the byte \<open>0xFF\<close> ends the line
  too. The buffer is used as a C string afterwards: it ends at its first NUL.
\<close>

fun read_line :: "string \<Rightarrow> string \<times> string" where
  "read_line [] = ([], [])"
| "read_line (ch # rest) =
    (if ch = CHR 0x0A \<or> ch = CHR 0xFF then ([], rest)
     else (let (line, rest') = read_line rest in (ch # line, rest')))"

definition get_user_input :: "interp \<Rightarrow> string \<times> interp" where
  "get_user_input s =
    (let (line, rest) = read_line (stdin s)
     in (takeWhile (\<lambda>c. c \<noteq> CHR 0x00) line, s\<lparr>stdin := rest\<rparr>))"

text \<open>\<^verbatim>\<open>read_block\<close> returns the completed command, or \<open>None\<close> for \<^verbatim>\<open>NULL\<close>.\<close>

fun read_block :: "nat \<Rightarrow> string \<Rightarrow> interp \<Rightarrow> (string option \<times> interp) option" where
  "read_block 0 command s = None"
| "read_block (Suc n) command s =
    (if is_open_block command = OPENED_BLOCK then
       (let (new_command, s1) = get_user_input (printf ''... '' s)
        in read_block n (command @ new_command) s1)
     else if is_open_block command = INVALID_BLOCK
       then Some (None, printf unbalanced_brackets_msg s)
     else Some (Some command, s))"

text \<open>
  One turn of \<^verbatim>\<open>main\<close>'s loop, from the test \<^verbatim>\<open>strchr(command, '[')\<close> on: the
  command has been read and is not empty. A result \<open>Some (Inr s)\<close> is the state in which
  the loop prompts again.
\<close>

definition main_dispatch :: "nat \<Rightarrow> string \<Rightarrow> interp \<Rightarrow> (fault + interp) option" where
  "main_dispatch fuel command s =
    (if strchr command CHR ''['' \<noteq> None then
       (let state = is_open_block command in
        if state = OPENED_BLOCK then
          (case read_block fuel command s of
             None \<Rightarrow> None
           | Some (None, s1) \<Rightarrow> Some (Inl NullDereference)
           | Some (Some command', s1) \<Rightarrow> parse_block fuel command' s1)
        else if state = INVALID_BLOCK then Some (Inr (printf unbalanced_blocks_msg s))
        else parse_block fuel command s)
     else Some (parse_command command s))"

section \<open>Counting brackets\<close>

text \<open>
  The nesting of a text, as the specification counts it: the number of opening brackets
  minus the number of closing brackets. The nesting counter of a scan that has read the
  first \<open>n\<close> characters of \<open>t\<close> is \<open>nesting (take n t)\<close>.
\<close>

definition nesting :: "string \<Rightarrow> int" where
  "nesting t = int (count_list t CHR ''['') - int (count_list t CHR '']'')"

section \<open>The loop, by its number of iterations\<close>


section \<open>Facts about cells and single instructions\<close>

lemma unat_word8_of_char: "unat (word_of_int (of_char c) :: 8 word) = of_char c"
proof -
  have "(word_of_int (of_char c) :: 8 word) = of_nat (of_char c)"
    by (simp add: of_int_of_char of_nat_of_char)
  moreover have "(of_char c :: nat) < 2 ^ LENGTH(8)"
    using nat_of_char_less_256 [of c] by simp
  ultimately show ?thesis
    by (simp add: unsigned_of_nat take_bit_nat_eq_self del: of_nat_of_char)
qed

lemma word8_of_char_newline: "(word_of_int (of_char c) :: 8 word) = 10 \<longleftrightarrow> c = CHR 0x0A"
proof
  assume "(word_of_int (of_char c) :: 8 word) = 10"
  then have "unat (word_of_int (of_char c) :: 8 word) = 10" by simp
  then have "(of_char c :: nat) = of_char (CHR 0x0A)" by (simp add: unat_word8_of_char)
  then show "c = CHR 0x0A" by (simp only: of_char_eq_iff)
next
  assume "c = CHR 0x0A"
  then show "(word_of_int (of_char c) :: 8 word) = 10" by simp
qed

lemma unat_dec8: "unat (w - 1 :: 8 word) = (unat w + 255) mod 256"
proof -
  have "w - 1 = w + 255" by simp
  then show ?thesis by (simp only: unat_word_ariths) simp
qed

lemma unat_inc8: "unat (w + 1 :: 8 word) = (unat w + 1) mod 256"
  by (simp add: unat_word_ariths)

lemma sint8_127: "sint (w :: 8 word) = 127 \<Longrightarrow> sint (w + 1) = - 128"
proof -
  assume "sint w = 127"
  then have "sint w = sint (127 :: 8 word)" by simp
  then have "w = 127" by (rule signed_word_eqI)
  then show ?thesis by simp
qed

lemma sint8_m128: "sint (w :: 8 word) = - 128 \<Longrightarrow> sint (w - 1) = 127"
proof -
  assume "sint w = - 128"
  then have "sint w = sint (128 :: 8 word)" by simp
  then have "w = 128" by (rule signed_word_eqI)
  then show ?thesis by simp
qed

lemma switch_plus: "switch CHR ''+'' s =
    (if current_cell s < MEMORY_SIZE then Inr (Break, store (load s + 1) s) else Inl OutOfBoundsAccess)"
  by (simp add: switch_def)

lemma switch_minus: "switch CHR ''-'' s =
    (if current_cell s < MEMORY_SIZE then Inr (Break, store (load s - 1) s) else Inl OutOfBoundsAccess)"
  by (simp add: switch_def)

lemma switch_right: "switch CHR ''>'' s =
    (if current_cell s < MEMORY_SIZE then Inr (Break, s\<lparr>current_cell := current_cell s + 1\<rparr>)
     else Inr (Return, printf end_of_memory_msg s))"
  by (simp add: switch_def)

lemma switch_left: "switch CHR ''<'' s =
    (if 0 < current_cell s then Inr (Break, s\<lparr>current_cell := current_cell s - 1\<rparr>)
     else Inr (Return, printf begining_of_memory_msg s))"
  by (simp add: switch_def)

lemma switch_comma: "switch CHR '','' s =
    (if current_cell s < MEMORY_SIZE then
       (let s2 = store (word_of_int (fst (getchar s))) (snd (getchar s))
        in Inr (Break, if load s2 = 10 then store 0 s2 else s2))
     else Inl OutOfBoundsAccess)"
  by (simp add: switch_def getchar_def Let_def split: list.splits prod.splits)

lemma load_store: "current_cell s < length (memory s) \<Longrightarrow> load (store v s) = v"
  by (simp add: load_def store_def)

lemma parse_command_rights:
  "current_cell s + n \<le> MEMORY_SIZE \<Longrightarrow>
   parse_command (replicate n CHR ''>'' @ rest) s = parse_command rest (s\<lparr>current_cell := current_cell s + n\<rparr>)"
proof (induction n arbitrary: s)
  case 0
  then show ?case by simp
next
  case (Suc n)
  then show ?case by (simp add: switch_right)
qed

lemma switch_cursor_bound:
  assumes "current_cell s \<le> MEMORY_SIZE" and "switch c s = Inr (fl, s')"
  shows "current_cell s' \<le> MEMORY_SIZE"
proof -
  have "current_cell (snd (getchar s)) = current_cell s"
    by (simp add: getchar_def split: list.splits)
  then show ?thesis
    using assms
    by (auto simp: switch_def store_def printf_def Let_def split: if_splits prod.splits)
qed

lemma parse_command_cursor_bound:
  "current_cell s \<le> MEMORY_SIZE \<Longrightarrow> parse_command command s = Inr s' \<Longrightarrow>
   current_cell s' \<le> MEMORY_SIZE"
proof (induction command arbitrary: s)
  case Nil
  then show ?case by simp
next
  case (Cons c cs)
  show ?case
  proof (cases "switch c s")
    case (Inl f)
    with Cons.prems(2) show ?thesis by simp
  next
    case (Inr r)
    obtain fl s1 where r: "r = (fl, s1)" by (cases r)
    with Inr Cons.prems(1) have b: "current_cell s1 \<le> MEMORY_SIZE"
      by (auto intro: switch_cursor_bound)
    show ?thesis
    proof (cases fl)
      case Break
      with Inr r Cons.prems(2) have "parse_command cs s1 = Inr s'" by simp
      with b show ?thesis by (rule Cons.IH)
    next
      case Return
      with Inr r Cons.prems(2) have "s' = s1" by simp
      with b show ?thesis by simp
    qed
  qed
qed

section \<open>Facts about the bracket scans\<close>

lemma nesting_Nil: "nesting [] = 0"
  by (simp add: nesting_def)

lemma nesting_Cons: "nesting (c # cs) =
    (if c = CHR ''['' then 1 else if c = CHR '']'' then - 1 else 0) + nesting cs"
  by (simp add: nesting_def)

lemma nesting_append: "nesting (p @ q) = nesting p + nesting q"
  by (induction p) (simp_all add: nesting_Nil nesting_Cons)

lemma ex_le_Suc: "(\<exists>n\<le>Suc k. P n) \<longleftrightarrow> P 0 \<or> (\<exists>n\<le>k. P (Suc n))"
proof
  assume "\<exists>n\<le>Suc k. P n"
  then obtain n where n: "n \<le> Suc k" "P n" by blast
  show "P 0 \<or> (\<exists>n\<le>k. P (Suc n))"
  proof (cases n)
    case 0
    with n show ?thesis by simp
  next
    case (Suc m)
    with n show ?thesis by auto
  qed
next
  assume "P 0 \<or> (\<exists>n\<le>k. P (Suc n))"
  then show "\<exists>n\<le>Suc k. P n" by auto
qed

lemma is_open_block_loop_eq:
  "0 \<le> b \<Longrightarrow> is_open_block_loop b t =
    (if \<exists>n\<le>length t. b + nesting (take n t) < 0 then INVALID_BLOCK
     else if b + nesting t > 0 then OPENED_BLOCK else CLOSED_BLOCK)"
proof (induction t arbitrary: b)
  case Nil
  then show ?case by (simp add: nesting_Nil)
next
  case (Cons c cs)
  show ?case
  proof (cases "c = CHR '']'' \<and> b - 1 < 0")
    case True
    then have "b + nesting (take 1 (c # cs)) < 0"
      by (simp add: nesting_Cons nesting_Nil)
    then have "\<exists>n\<le>length (c # cs). b + nesting (take n (c # cs)) < 0"
      by (intro exI [of _ 1]) simp
    with True show ?thesis by simp
  next
    case False
    define d :: int where "d = (if c = CHR ''['' then 1 else if c = CHR '']'' then - 1 else 0)"
    have d0: "0 \<le> b + d" using False Cons.prems by (auto simp: d_def)
    have step: "is_open_block_loop b (c # cs) = is_open_block_loop (b + d) cs"
      using False by (auto simp: d_def)
    have ex: "(\<exists>n\<le>length (c # cs). b + nesting (take n (c # cs)) < 0)
        \<longleftrightarrow> (\<exists>n\<le>length cs. b + d + nesting (take n cs) < 0)"
      using Cons.prems by (simp add: ex_le_Suc nesting_Cons nesting_Nil d_def add.assoc)
    have fin: "b + nesting (c # cs) = b + d + nesting cs"
      by (simp add: nesting_Cons d_def)
    show ?thesis
      unfolding step Cons.IH [OF d0] ex fin ..
  qed
qed

lemma is_open_block_eq:
  "is_open_block t =
    (if \<exists>n\<le>length t. nesting (take n t) < 0 then INVALID_BLOCK
     else if nesting t > 0 then OPENED_BLOCK else CLOSED_BLOCK)"
proof -
  have "is_open_block t = is_open_block_loop 0 t"
    by (simp add: is_open_block_def)
  also have "\<dots> = (if \<exists>n\<le>length t. 0 + nesting (take n t) < 0 then INVALID_BLOCK
     else if 0 + nesting t > 0 then OPENED_BLOCK else CLOSED_BLOCK)"
    by (rule is_open_block_loop_eq) simp
  finally show ?thesis by (simp only: add_0)
qed

lemma negative_prefix_append:
  assumes "\<exists>n\<le>length t. nesting (take n t) < 0"
  shows "\<exists>n\<le>length (t @ u). nesting (take n (t @ u)) < 0"
proof -
  from assms obtain n where "n \<le> length t" "nesting (take n t) < 0" by blast
  then have "n \<le> length (t @ u) \<and> nesting (take n (t @ u)) < 0" by simp
  then show ?thesis by blast
qed

lemma all_le_Suc: "(\<forall>n\<le>Suc k. P n) \<longleftrightarrow> P 0 \<and> (\<forall>n\<le>k. P (Suc n))"
  using ex_le_Suc [of k "\<lambda>n. \<not> P n"] by blast

lemma strchr_None: "strchr t c = None \<longleftrightarrow> c \<notin> set t"
  by (induction t) auto

lemma strchr_Some:
  "strchr t c = Some b \<Longrightarrow> \<exists>p rest. t = p @ c # rest \<and> length p = b \<and> c \<notin> set p"
proof (induction t arbitrary: b)
  case Nil
  then show ?case by simp
next
  case (Cons x xs)
  show ?case
  proof (cases "x = c")
    case True
    with Cons.prems have "x # xs = [] @ c # xs \<and> length ([] :: string) = b \<and> c \<notin> set []"
      by simp
    then show ?thesis by blast
  next
    case False
    with Cons.prems obtain b' where b': "strchr xs c = Some b'" "b = Suc b'"
      by auto
    from Cons.IH [OF b'(1)] obtain p rest where "xs = p @ c # rest" "length p = b'" "c \<notin> set p"
      by blast
    with False b' have "x # xs = (x # p) @ c # rest \<and> length (x # p) = b \<and> c \<notin> set (x # p)"
      by simp
    then show ?thesis by blast
  qed
qed

lemma strchr_append: "c \<notin> set p \<Longrightarrow> strchr (p @ c # rest) c = Some (length p)"
  by (induction p) auto

lemma nesting_no_brackets: "CHR ''['' \<notin> set p \<Longrightarrow> CHR '']'' \<notin> set p \<Longrightarrow> nesting p = 0"
  by (induction p) (auto simp: nesting_Nil nesting_Cons)

lemma find_closing_loop_skip:
  "CHR ''['' \<notin> set p \<Longrightarrow> CHR '']'' \<notin> set p \<Longrightarrow>
   find_closing_loop b i (p @ rest) = find_closing_loop b (i + length p) rest"
  by (induction p arbitrary: i) auto

lemma find_closing_loop_not_found:
  "find_closing_loop b i t = INVALID_BLOCK \<longleftrightarrow>
   \<not> (\<exists>k<length t. t ! k = CHR '']'' \<and> b + nesting (take (Suc k) t) = 0)"
proof (induction t arbitrary: b i)
  case Nil
  then show ?case by simp
next
  case (Cons c cs)
  show ?case
  proof (cases "c = CHR '']'' \<and> b - 1 = 0")
    case True
    then have "0 < length (c # cs) \<and> (c # cs) ! 0 = CHR '']''
        \<and> b + nesting (take (Suc 0) (c # cs)) = 0"
      by (simp add: nesting_Cons nesting_Nil)
    then have "\<exists>k<length (c # cs). (c # cs) ! k = CHR '']'' \<and> b + nesting (take (Suc k) (c # cs)) = 0"
      by blast
    moreover have "find_closing_loop b i (c # cs) \<noteq> INVALID_BLOCK"
      using True by (simp add: INVALID_BLOCK_def)
    ultimately show ?thesis by blast
  next
    case False
    define d :: int where "d = (if c = CHR ''['' then 1 else if c = CHR '']'' then - 1 else 0)"
    have step: "find_closing_loop b i (c # cs) = find_closing_loop (b + d) (i + 1) cs"
      using False by (auto simp: d_def)
    have ex: "(\<exists>k<length (c # cs). (c # cs) ! k = CHR '']'' \<and> b + nesting (take (Suc k) (c # cs)) = 0)
        \<longleftrightarrow> (\<exists>k<length cs. cs ! k = CHR '']'' \<and> b + d + nesting (take (Suc k) cs) = 0)"
    proof -
      have p0: "\<not> ((c # cs) ! 0 = CHR '']'' \<and> b + nesting (take (Suc 0) (c # cs)) = 0)"
        using False by (simp add: nesting_Cons nesting_Nil)
      have ps: "b + nesting (take (Suc (Suc k)) (c # cs)) = b + d + nesting (take (Suc k) cs)" for k
        by (simp add: nesting_Cons d_def)
      show ?thesis
        unfolding length_Cons Ex_less_Suc2 using p0 by (simp only: ps nth_Cons_Suc) simp
    qed
    show ?thesis
      unfolding step ex by (rule Cons.IH)
  qed
qed

lemma find_closing_loop_found:
  "1 \<le> b \<Longrightarrow> find_closing_loop b i t \<noteq> INVALID_BLOCK \<Longrightarrow>
   \<exists>k<length t. find_closing_loop b i t = int (i + k) \<and> t ! k = CHR '']''
     \<and> b + nesting (take (Suc k) t) = 0
     \<and> (\<forall>j<k. 1 \<le> b + nesting (take (Suc j) t))"
proof (induction t arbitrary: b i)
  case Nil
  then show ?case by simp
next
  case (Cons c cs)
  show ?case
  proof (cases "c = CHR '']'' \<and> b - 1 = 0")
    case True
    then have "0 < length (c # cs) \<and> find_closing_loop b i (c # cs) = int (i + 0) \<and> (c # cs) ! 0 = CHR '']''
        \<and> b + nesting (take (Suc 0) (c # cs)) = 0
        \<and> (\<forall>j<0. 1 \<le> b + nesting (take (Suc j) (c # cs)))"
      by (simp add: nesting_Cons nesting_Nil)
    then show ?thesis by blast
  next
    case False
    define d :: int where "d = (if c = CHR ''['' then 1 else if c = CHR '']'' then - 1 else 0)"
    have step: "find_closing_loop b i (c # cs) = find_closing_loop (b + d) (i + 1) cs"
      using False by (auto simp: d_def)
    have d1: "1 \<le> b + d"
      using False Cons.prems(1) by (auto simp: d_def)
    from Cons.prems(2) have "find_closing_loop (b + d) (i + 1) cs \<noteq> INVALID_BLOCK"
      unfolding step .
    from Cons.IH [OF d1 this] obtain k where k: "k < length cs"
      "find_closing_loop (b + d) (i + 1) cs = int (i + 1 + k)" "cs ! k = CHR '']''"
      "b + d + nesting (take (Suc k) cs) = 0"
      "\<forall>j<k. 1 \<le> b + d + nesting (take (Suc j) cs)"
      by blast
    have hd: "1 \<le> b + nesting (take (Suc 0) (c # cs))"
      using d1 by (simp add: nesting_Cons nesting_Nil d_def)
    have tl: "b + nesting (take (Suc (Suc j)) (c # cs)) = b + d + nesting (take (Suc j) cs)" for j
      by (simp add: nesting_Cons d_def)
    have "\<forall>j<Suc k. 1 \<le> b + nesting (take (Suc j) (c # cs))"
      unfolding All_less_Suc2 using hd k(5) by (simp only: tl)
    with k step tl [of k]
    have "Suc k < length (c # cs) \<and> find_closing_loop b i (c # cs) = int (i + Suc k)
        \<and> (c # cs) ! Suc k = CHR '']''
        \<and> b + nesting (take (Suc (Suc k)) (c # cs)) = 0
        \<and> (\<forall>j<Suc k. 1 \<le> b + nesting (take (Suc j) (c # cs)))"
      by simp
    then show ?thesis by blast
  qed
qed

lemma find_closing_loop_exists:
  "1 \<le> b \<Longrightarrow> b + nesting t \<le> 0 \<Longrightarrow> find_closing_loop b i t \<noteq> INVALID_BLOCK"
proof (induction t arbitrary: b i)
  case Nil
  then show ?case by (simp add: nesting_Nil)
next
  case (Cons c cs)
  show ?case
  proof (cases "c = CHR '']'' \<and> b - 1 = 0")
    case True
    then show ?thesis by (simp add: INVALID_BLOCK_def)
  next
    case False
    define d :: int where "d = (if c = CHR ''['' then 1 else if c = CHR '']'' then - 1 else 0)"
    have step: "find_closing_loop b i (c # cs) = find_closing_loop (b + d) (i + 1) cs"
      using False by (auto simp: d_def)
    have d1: "1 \<le> b + d"
      using False Cons.prems(1) by (auto simp: d_def)
    have "b + d + nesting cs \<le> 0"
      using Cons.prems(2) by (simp add: nesting_Cons d_def)
    from Cons.IH [OF d1 this] show ?thesis unfolding step .
  qed
qed

lemma closed_prefixes:
  assumes "is_open_block t = CLOSED_BLOCK"
  shows "(\<forall>n\<le>length t. 0 \<le> nesting (take n t)) \<and> nesting t = 0"
proof -
  have inv: "\<not> (\<exists>n\<le>length t. nesting (take n t) < 0)"
    using assms by (auto simp: is_open_block_eq INVALID_BLOCK_def CLOSED_BLOCK_def split: if_splits)
  then have pre: "\<forall>n\<le>length t. 0 \<le> nesting (take n t)"
    by (auto simp: not_less)
  have "\<not> 0 < nesting t"
    using assms inv
    by (auto simp: is_open_block_eq OPENED_BLOCK_def CLOSED_BLOCK_def split: if_splits)
  moreover have "0 \<le> nesting t"
    using pre [rule_format, of "length t"] by simp
  ultimately show ?thesis using pre by simp
qed


lemma no_close_before_first_open:
  assumes "\<forall>n\<le>length t. 0 \<le> nesting (take n t)"
    and "t = p @ CHR ''['' # rest" and "CHR ''['' \<notin> set p"
  shows "CHR '']'' \<notin> set p"
proof
  assume "CHR '']'' \<in> set p"
  then obtain p1 p2 where p: "p = p1 @ CHR '']'' # p2" "CHR '']'' \<notin> set p1"
    by (meson split_list_first)
  have "CHR ''['' \<notin> set p1" using p(1) assms(3) by simp
  then have "nesting p1 = 0" using p(2) by (rule nesting_no_brackets)
  moreover have "take (Suc (length p1)) t = p1 @ [CHR '']'']"
    using p(1) assms(2) by simp
  ultimately have "nesting (take (Suc (length p1)) t) = - 1"
    by (simp add: nesting_append nesting_Cons nesting_Nil)
  moreover have "Suc (length p1) \<le> length t"
    using p(1) assms(2) by simp
  ultimately show False
    using assms(1) [rule_format, of "Suc (length p1)"] by simp
qed

lemma nesting_zero: "nesting x = 0 \<longleftrightarrow> count_list x CHR ''['' = count_list x CHR '']''"
  by (simp add: nesting_def)

lemma find_closing_closed:
  assumes closed: "is_open_block t = CLOSED_BLOCK"
    and t: "t = p @ CHR ''['' # rest" and p: "CHR ''['' \<notin> set p"
  shows "\<exists>k<length rest. find_closing t = int (length p + 1 + k) \<and> rest ! k = CHR '']''
     \<and> 1 + nesting (take (Suc k) rest) = 0
     \<and> (\<forall>j<k. 1 \<le> 1 + nesting (take (Suc j) rest))"
proof -
  from closed have pre: "\<forall>n\<le>length t. 0 \<le> nesting (take n t)" and fin: "nesting t = 0"
    using closed_prefixes by blast+
  have q: "CHR '']'' \<notin> set p"
    using pre t p by (rule no_close_before_first_open)
  have "nesting p = 0" using p q by (rule nesting_no_brackets)
  with fin have rest: "1 + nesting rest \<le> 0"
    by (simp add: t nesting_append nesting_Cons)
  have run: "find_closing t = find_closing_loop 1 (length p + 1) rest"
    using p q by (simp add: find_closing_def t find_closing_loop_skip)
  have "find_closing_loop 1 (length p + 1) rest \<noteq> INVALID_BLOCK"
    using rest by (intro find_closing_loop_exists) simp_all
  then show ?thesis
    unfolding run by (intro find_closing_loop_found) simp_all
qed

section \<open>Facts about parse_block: fuel\<close>

declare parse_block.simps [simp del] block_while.simps [simp del]

lemma then_run_mono:
  assumes "then_run m k = Some r"
    and "\<And>r'. m = Some r' \<Longrightarrow> m' = Some r'"
    and "\<And>s r'. k s = Some r' \<Longrightarrow> k' s = Some r'"
  shows "then_run m' k' = Some r"
proof (cases m)
  case None
  with assms(1) show ?thesis by simp
next
  case (Some x)
  then have m': "m' = Some x" by (rule assms(2))
  show ?thesis
  proof (cases x)
    case (Inl f)
    with Some assms(1) have "r = Inl f" by simp
    with Inl m' show ?thesis by simp
  next
    case (Inr s)
    with Some assms(1) have "k s = Some r" by simp
    then have "k' s = Some r" by (rule assms(3))
    with Inr m' show ?thesis by simp
  qed
qed

lemma then_run_return: "then_run m (\<lambda>s. Some (Inr s)) = m"
  by (cases "(m, \<lambda>s. Some (Inr s :: fault + interp))" rule: then_run.cases) simp_all

lemma fuel_step:
  "(parse_block n c s = Some r \<longrightarrow> parse_block (Suc n) c s = Some r)
   \<and> (block_while n c s = Some r \<longrightarrow> block_while (Suc n) c s = Some r)"
proof (induction n arbitrary: c s r)
  case 0
  show ?case by (simp add: parse_block.simps block_while.simps)
next
  case (Suc n)
  have pb: "parse_block n c s = Some r \<Longrightarrow> parse_block (Suc n) c s = Some r" for c s r
    using Suc.IH by blast
  have bw: "block_while n c s = Some r \<Longrightarrow> block_while (Suc n) c s = Some r" for c s r
    using Suc.IH by blast
  have body: "(if strchr c CHR ''['' \<noteq> None then parse_block (Suc n) c s else Some (parse_command c s)) = Some r"
    if "(if strchr c CHR ''['' \<noteq> None then parse_block n c s else Some (parse_command c s)) = Some r"
    for c s r
    using that by (auto split: if_splits intro: pb)
  have 1: "parse_block (Suc (Suc n)) c s = Some r" if a: "parse_block (Suc n) c s = Some r"
  proof (cases "c = []")
    case True
    with a show ?thesis by (simp add: parse_block.simps)
  next
    case False
    show ?thesis
    proof (cases "strchr c CHR ''[''")
      case None
      with a False show ?thesis by (simp add: parse_block.simps)
    next
      case (Some b)
      let ?pre = "Some (if b \<noteq> 0 then parse_command (take b c) s else Inr s)"
      let ?e = "nat (find_closing c)"
      let ?body = "take (?e - b - 1) (drop (b + 1) c)"
      let ?bs = "take (length c - ?e - 1) (drop (?e + 1) c)"
      let ?suf = "\<lambda>m s2. if 1 < length c - ?e
          then (if strchr ?bs CHR ''['' \<noteq> None then parse_block m ?bs s2
                else Some (parse_command ?bs s2))
          else Some (Inr s2)"
      let ?k = "\<lambda>m s1. if find_closing c = INVALID_BLOCK then Some (Inl BadBlockIndex)
          else then_run (block_while m ?body s1) (?suf m)"
      have eq: "parse_block (Suc m) c s = then_run ?pre (?k m)" for m
        using False Some unfolding parse_block.simps Let_def by simp
      have suf: "?suf (Suc n) s2 = Some r'" if "?suf n s2 = Some r'" for s2 r'
        using that by (auto split: if_splits intro: pb)
      have k: "?k (Suc n) s1 = Some r'" if k: "?k n s1 = Some r'" for s1 r'
      proof (cases "find_closing c = INVALID_BLOCK")
        case True
        with k show ?thesis by simp
      next
        case False
        with k have "then_run (block_while n ?body s1) (?suf n) = Some r'" by simp
        then have "then_run (block_while (Suc n) ?body s1) (?suf (Suc n)) = Some r'"
          by (rule then_run_mono) (erule bw, erule suf)
        with False show ?thesis by simp
      qed
      from a have "then_run ?pre (?k n) = Some r" by (simp only: eq)
      then have "then_run ?pre (?k (Suc n)) = Some r"
        by (rule then_run_mono) (assumption, erule k)
      then show ?thesis by (simp only: eq)
    qed
  qed
  have 2: "block_while (Suc (Suc n)) c s = Some r" if a: "block_while (Suc n) c s = Some r"
  proof (cases "current_cell s < MEMORY_SIZE \<and> load s \<noteq> 0")
    case True
    with a have "then_run (if strchr c CHR ''['' \<noteq> None then parse_block n c s
        else Some (parse_command c s)) (block_while n c) = Some r"
      by (simp add: block_while.simps)
    then have "then_run (if strchr c CHR ''['' \<noteq> None then parse_block (Suc n) c s
        else Some (parse_command c s)) (block_while (Suc n) c) = Some r"
      by (rule then_run_mono) (erule body, erule bw)
    with True show ?thesis by (simp add: block_while.simps)
  next
    case False
    with a show ?thesis by (auto simp: block_while.simps split: if_splits)
  qed
  from 1 2 show ?case by blast
qed

lemma parse_block_fuel_mono:
  "parse_block n c s = Some r \<Longrightarrow> n \<le> m \<Longrightarrow> parse_block m c s = Some r"
proof (induction m)
  case 0
  then show ?case by (simp add: parse_block.simps block_while.simps)
next
  case (Suc m)
  show ?case
  proof (cases "n = Suc m")
    case True
    with Suc.prems show ?thesis by simp
  next
    case False
    with Suc.prems have "n \<le> m" by simp
    with Suc have "parse_block m c s = Some r" by simp
    then show ?thesis using fuel_step by blast
  qed
qed

lemma block_while_fuel_mono:
  "block_while n c s = Some r \<Longrightarrow> n \<le> m \<Longrightarrow> block_while m c s = Some r"
proof (induction m)
  case 0
  then show ?case by (simp add: parse_block.simps block_while.simps)
next
  case (Suc m)
  show ?case
  proof (cases "n = Suc m")
    case True
    with Suc.prems show ?thesis by simp
  next
    case False
    with Suc.prems have "n \<le> m" by simp
    with Suc have "block_while m c s = Some r" by simp
    then show ?thesis using fuel_step by blast
  qed
qed

section \<open>Facts about parse_block: splitting a command\<close>

lemma find_closing_loop_through:
  "(\<forall>n\<le>length body. 1 \<le> b + nesting (take n body)) \<Longrightarrow>
   find_closing_loop b i (body @ rest) = find_closing_loop (b + nesting body) (i + length body) rest"
proof (induction body arbitrary: b i)
  case Nil
  then show ?case by (simp add: nesting_Nil)
next
  case (Cons c cs)
  define d :: int where "d = (if c = CHR ''['' then 1 else if c = CHR '']'' then - 1 else 0)"
  from Cons.prems have all: "\<forall>n\<le>length cs. 1 \<le> b + d + nesting (take n cs)"
    by (simp add: all_le_Suc nesting_Cons d_def add.assoc)
  then have "1 \<le> b + d + nesting (take 0 cs)" by blast
  then have d1: "1 \<le> b + d" by (simp add: nesting_Nil)
  have step: "find_closing_loop b i ((c # cs) @ rest) = find_closing_loop (b + d) (i + 1) (cs @ rest)"
    using d1 by (auto simp: d_def)
  show ?case
    unfolding step Cons.IH [OF all] by (simp add: nesting_Cons d_def add.assoc)
qed

lemma find_closing_block:
  assumes "CHR ''['' \<notin> set p" and "CHR '']'' \<notin> set p" and "is_open_block body = CLOSED_BLOCK"
  shows "find_closing (p @ CHR ''['' # body @ CHR '']'' # q) = int (length p + 1 + length body)"
proof -
  from assms(3) have pre: "\<forall>n\<le>length body. 0 \<le> nesting (take n body)" and fin: "nesting body = 0"
    using closed_prefixes by blast+
  from pre have "\<forall>n\<le>length body. 1 \<le> 1 + nesting (take n body)" by simp
  then have "find_closing_loop 1 (length p + 1) (body @ CHR '']'' # q)
      = find_closing_loop (1 + nesting body) (length p + 1 + length body) (CHR '']'' # q)"
    by (rule find_closing_loop_through)
  then show ?thesis
    using assms(1,2) fin by (simp add: find_closing_def find_closing_loop_skip)
qed

lemma parse_block_split:
  assumes p: "CHR ''['' \<notin> set p" "CHR '']'' \<notin> set p" and body: "is_open_block body = CLOSED_BLOCK"
  shows "parse_block (Suc n) (p @ CHR ''['' # body @ CHR '']'' # q) s =
    then_run (Some (parse_command p s))
      (\<lambda>s1. then_run (block_while n body s1)
         (\<lambda>s2. if CHR ''['' \<in> set q then parse_block n q s2 else Some (parse_command q s2)))"
proof -
  let ?c = "p @ CHR ''['' # body @ CHR '']'' # q"
  have st: "strchr ?c CHR ''['' = Some (length p)"
    using p(1) by (rule strchr_append)
  have fc: "find_closing ?c = int (length p + 1 + length body)"
    using p body by (rule find_closing_block)
  have ne: "find_closing ?c \<noteq> INVALID_BLOCK"
    unfolding fc by (simp add: INVALID_BLOCK_def)
  have e: "nat (find_closing ?c) = length p + 1 + length body"
    unfolding fc by simp
  have pre: "(if length p \<noteq> 0 then parse_command (take (length p) ?c) s else Inr s) = parse_command p s"
    by (cases p) simp_all
  have bd: "take (length p + 1 + length body - length p - 1) (drop (length p + 1) ?c) = body"
    by simp
  have len: "length ?c - (length p + 1 + length body) = Suc (length q)"
    by simp
  have sf: "take (Suc (length q) - 1) (drop (length p + 1 + length body + 1) ?c) = q"
    by simp
  have suf: "(if 1 < Suc (length q)
        then (if strchr q CHR ''['' \<noteq> None then parse_block n q s2 else Some (parse_command q s2))
        else Some (Inr s2))
      = (if CHR ''['' \<in> set q then parse_block n q s2 else Some (parse_command q s2))" for s2
    by (cases "q = []") (simp_all add: strchr_None)
  show ?thesis
    unfolding parse_block.simps Let_def st option.case e pre bd len sf suf
    using ne by simp
qed

lemma block_while_zero:
  "current_cell s < MEMORY_SIZE \<Longrightarrow> load s = 0 \<Longrightarrow> block_while (Suc n) body s = Some (Inr s)"
  by (simp add: block_while.simps)

lemma block_while_flat:
  "current_cell s < MEMORY_SIZE \<Longrightarrow> load s \<noteq> 0 \<Longrightarrow> CHR ''['' \<notin> set body \<Longrightarrow>
   block_while (Suc n) body s = then_run (Some (parse_command body s)) (block_while n body)"
  by (simp add: block_while.simps strchr_None)

lemma block_while_nested:
  "current_cell s < MEMORY_SIZE \<Longrightarrow> load s \<noteq> 0 \<Longrightarrow> CHR ''['' \<in> set body \<Longrightarrow>
   block_while (Suc n) body s = then_run (parse_block n body s) (block_while n body)"
  by (simp add: block_while.simps strchr_None)

lemma initial_on_tape: "current_cell initial < MEMORY_SIZE" "load initial = 0"
  by (simp_all add: initial_def MEMORY_SIZE_def load_def)

lemma one_on_tape: "current_cell (store 1 initial) < MEMORY_SIZE" "load (store 1 initial) \<noteq> 0"
  by (simp_all add: initial_def MEMORY_SIZE_def load_def store_def)

lemma sample_run_6:
  "parse_block 6 ''++++[>++++<-]>'' initial
     = Some (Inr (initial\<lparr>memory := (memory initial)[1 := 16], current_cell := 1\<rparr>))"
  by code_simp

lemma main_dispatch_closed:
  "strchr command CHR ''['' \<noteq> None \<Longrightarrow> is_open_block command = CLOSED_BLOCK \<Longrightarrow>
   main_dispatch fuel command s = parse_block fuel command s"
  by (simp add: main_dispatch_def CLOSED_BLOCK_def OPENED_BLOCK_def INVALID_BLOCK_def)

lemma switch_other:
  "c \<notin> set ''+-><.,'' \<Longrightarrow> switch c s = Inr (Break, s)"
  by (simp add: switch_def)

lemma switch_dot: "switch CHR ''.'' s =
    (if current_cell s < MEMORY_SIZE then Inr (Break, printf [char_of (unat (load s))] s)
     else Inl OutOfBoundsAccess)"
  by (simp add: switch_def)

lemma switch_cases:
  obtains "c = CHR ''+''" | "c = CHR ''-''" | "c = CHR ''>''" | "c = CHR ''<''"
    | "c = CHR ''.''" | "c = CHR '',''" | "c \<notin> set ''+-><.,''"
  by auto

lemma tape_state_printf: "tape_state (printf text s) = tape_state s"
  by (simp add: tape_state_def printf_def)

lemma switch_tape_state:
  assumes "tape_state s1 = tape_state s2"
  shows "map_sum id (map_prod id tape_state) (switch c s1)
       = map_sum id (map_prod id tape_state) (switch c s2)"
proof -
  from assms have eq: "memory s1 = memory s2" "current_cell s1 = current_cell s2"
    "stdin s1 = stdin s2"
    by (simp_all add: tape_state_def)
  show ?thesis
  proof (cases c rule: switch_cases)
    case 1
    then show ?thesis by (simp add: switch_plus tape_state_def store_def load_def eq)
  next
    case 2
    then show ?thesis by (simp add: switch_minus tape_state_def store_def load_def eq)
  next
    case 3
    then show ?thesis by (simp add: switch_right tape_state_def printf_def eq)
  next
    case 4
    then show ?thesis by (simp add: switch_left tape_state_def printf_def eq)
  next
    case 5
    then show ?thesis by (simp add: switch_dot tape_state_def printf_def load_def eq)
  next
    case 6
    then show ?thesis
      by (cases "stdin s2")
        (simp_all add: switch_comma getchar_def tape_state_def store_def load_def eq Let_def)
  next
    case 7
    then show ?thesis using assms by (simp add: switch_other)
  qed
qed

lemma parse_command_tape_state:
  "tape_state s1 = tape_state s2 \<Longrightarrow>
   map_sum id tape_state (parse_command command s1) = map_sum id tape_state (parse_command command s2)"
proof (induction command arbitrary: s1 s2)
  case Nil
  then show ?case by simp
next
  case (Cons c cs)
  from switch_tape_state [OF Cons.prems, of c]
  consider f where "switch c s1 = Inl f" "switch c s2 = Inl f"
    | fl a b where "switch c s1 = Inr (fl, a)" "switch c s2 = Inr (fl, b)" "tape_state a = tape_state b"
    by (cases "switch c s1"; cases "switch c s2") auto
  then show ?case
  proof cases
    case 1
    then show ?thesis by simp
  next
    case 2
    then show ?thesis using Cons.IH [of a b] by (cases fl) simp_all
  qed
qed

lemma main_dispatch_flat:
  "CHR ''['' \<notin> set command \<Longrightarrow> main_dispatch fuel command s = Some (parse_command command s)"
  by (simp add: main_dispatch_def strchr_None)

lemma parse_command_ignores_close:
  "parse_command command s = parse_command (filter (\<lambda>c. c \<noteq> CHR '']'') command) s"
  by (induction command arbitrary: s) (simp_all add: switch_other split: sum.splits flow.splits)

lemma main_dispatch_invalid:
  assumes "CHR ''['' \<in> set command" and "\<exists>n\<le>length command. nesting (take n command) < 0"
  shows "main_dispatch fuel command s = Some (Inr (printf unbalanced_blocks_msg s))"
proof -
  have "is_open_block command = INVALID_BLOCK"
    using assms(2) by (simp only: is_open_block_eq) simp
  then show ?thesis
    using assms(1) by (simp add: main_dispatch_def strchr_None INVALID_BLOCK_def OPENED_BLOCK_def)
qed





section \<open>Facts about parse_block: the result of a block\<close>




section \<open>The cursor stays on the tape, except at the right end\<close>

text \<open>
  C1. The claim that \<^verbatim>\<open>>\<close> at the last index leaves the cursor where it is does not
  hold of the code: the guard \<^verbatim>\<open>(memory + MEMORY_SIZE) - current_cell > 0\<close> is still
  true at index 255, so the cursor moves to index 256, one past the array, without a
  message, and the next \<^verbatim>\<open>+\<close> writes outside \<^verbatim>\<open>memory\<close>. At the left end the
  guard is exact: \<^verbatim>\<open><\<close> at index 0 prints its message and leaves the cursor at 0.
\<close>

theorem move_right_steps_past_the_last_cell:
  "parse_command (replicate 255 CHR ''>'') initial = Inr (initial\<lparr>current_cell := 255\<rparr>)
   \<and> parse_command ''>'' (initial\<lparr>current_cell := 255\<rparr>) = Inr (initial\<lparr>current_cell := 256\<rparr>)
   \<and> parse_command ''+'' (initial\<lparr>current_cell := 256\<rparr>) = Inl OutOfBoundsAccess
   \<and> parse_command (replicate 256 CHR ''>'' @ ''+'') initial = Inl OutOfBoundsAccess
   \<and> parse_command ''<'' initial = Inr (printf begining_of_memory_msg initial)"
proof -
  have a: "parse_command (replicate 255 CHR ''>'') initial = Inr (initial\<lparr>current_cell := 255\<rparr>)"
    using parse_command_rights [of initial 255 "[]"] by (simp add: initial_def MEMORY_SIZE_def)
  have b: "parse_command ''>'' (initial\<lparr>current_cell := 255\<rparr>) = Inr (initial\<lparr>current_cell := 256\<rparr>)"
    by (simp add: switch_right MEMORY_SIZE_def)
  have c: "parse_command ''+'' (initial\<lparr>current_cell := 256\<rparr>) = Inl OutOfBoundsAccess"
    by (simp add: switch_plus MEMORY_SIZE_def)
  have d: "parse_command (replicate 256 CHR ''>'' @ ''+'') initial = Inl OutOfBoundsAccess"
    using parse_command_rights [of initial 256 "''+''"] c by (simp add: initial_def MEMORY_SIZE_def)
  have e: "parse_command ''<'' initial = Inr (printf begining_of_memory_msg initial)"
    by (simp add: switch_left initial_def)
  show ?thesis
    by (intro conjI) (rule a b c d e)+
qed

section \<open>Unbalanced commands\<close>

text \<open>
  C2, as stated, fails on the command \<^verbatim>\<open>]\<close>: \<^verbatim>\<open>main\<close> calls \<^verbatim>\<open>is_open_block\<close> only
  when the command contains an opening bracket. The lone closing bracket goes to
  \<^verbatim>\<open>parse_command\<close>, which ignores it, and nothing is printed.
\<close>

theorem lone_closing_bracket_is_not_reported:
  "is_open_block '']'' = INVALID_BLOCK
   \<and> main_dispatch 1 '']'' initial = Some (Inr initial)
   \<and> initial \<noteq> printf unbalanced_blocks_msg initial
   \<and> initial \<noteq> printf unbalanced_brackets_msg initial"
proof -
  have a: "is_open_block '']'' = INVALID_BLOCK"
    by (simp add: is_open_block_def)
  have b: "main_dispatch 1 '']'' initial = Some (Inr initial)"
    by (simp add: main_dispatch_flat switch_other)
  have c: "stdout initial \<noteq> stdout (printf unbalanced_blocks_msg initial)"
    "stdout initial \<noteq> stdout (printf unbalanced_brackets_msg initial)"
    by (simp_all add: printf_def initial_def unbalanced_blocks_msg_def unbalanced_brackets_msg_def)
  have d1: "initial \<noteq> printf unbalanced_blocks_msg initial"
  proof
    assume "initial = printf unbalanced_blocks_msg initial"
    then have "stdout initial = stdout (printf unbalanced_blocks_msg initial)"
      by (rule arg_cong)
    with c(1) show False by contradiction
  qed
  have d2: "initial \<noteq> printf unbalanced_brackets_msg initial"
  proof
    assume "initial = printf unbalanced_brackets_msg initial"
    then have "stdout initial = stdout (printf unbalanced_brackets_msg initial)"
      by (rule arg_cong)
    with c(2) show False by contradiction
  qed
  show ?thesis
    by (intro conjI) (rule a b d1 d2)+
qed

text \<open>
  C2, amended. A command that contains an opening bracket and has a closing bracket with
  no opening bracket before it makes \<^verbatim>\<open>main\<close> print the unbalanced-blocks message, leave
  tape, cursor and input as they are, and go on to the next prompt. A command without any
  opening bracket is not checked: it is run by \<^verbatim>\<open>parse_command\<close>, where a closing bracket
  is an ignored character.
\<close>

theorem unbalanced_command_with_open_bracket_rejected:
  "(CHR ''['' \<in> set command \<and> (\<exists>n\<le>length command. nesting (take n command) < 0) \<longrightarrow>
      (\<exists>s'. main_dispatch fuel command s = Some (Inr s')
         \<and> stdout s' = stdout s @ unbalanced_blocks_msg
         \<and> tape_state s' = tape_state s))
   \<and> (CHR ''['' \<notin> set command \<longrightarrow>
        main_dispatch fuel command s = Some (parse_command command s)
        \<and> parse_command command s = parse_command (filter (\<lambda>c. c \<noteq> CHR '']'') command) s)"
proof (intro conjI impI)
  assume "CHR ''['' \<in> set command \<and> (\<exists>n\<le>length command. nesting (take n command) < 0)"
  then have "main_dispatch fuel command s = Some (Inr (printf unbalanced_blocks_msg s))"
    by (simp add: main_dispatch_invalid)
  moreover have "stdout (printf unbalanced_blocks_msg s) = stdout s @ unbalanced_blocks_msg"
    by (simp add: printf_def)
  moreover have "tape_state (printf unbalanced_blocks_msg s) = tape_state s"
    by (rule tape_state_printf)
  ultimately show "\<exists>s'. main_dispatch fuel command s = Some (Inr s')
         \<and> stdout s' = stdout s @ unbalanced_blocks_msg
         \<and> tape_state s' = tape_state s"
    by blast
next
  assume "CHR ''['' \<notin> set command"
  then show "main_dispatch fuel command s = Some (parse_command command s)"
    by (rule main_dispatch_flat)
next
  show "parse_command command s = parse_command (filter (\<lambda>c. c \<noteq> CHR '']'') command) s"
    by (rule parse_command_ignores_close)
qed

theorem unbalanced_command_with_open_bracket_rejected_witness:
  "(CHR ''['' \<in> set '']['' \<and> (\<exists>n\<le>length ''][''. nesting (take n '']['') < 0))
   \<and> (\<exists>s'. main_dispatch 1 '']['' initial = Some (Inr s')
         \<and> stdout s' = stdout initial @ unbalanced_blocks_msg
         \<and> tape_state s' = tape_state initial)
   \<and> CHR ''['' \<notin> set ''+]''
   \<and> main_dispatch 1 ''+]'' initial = Some (parse_command ''+]'' initial)"
proof -
  have a: "CHR ''['' \<in> set '']['' \<and> (\<exists>n\<le>length ''][''. nesting (take n '']['') < 0)"
    by (simp add: ex_le_Suc nesting_Cons nesting_Nil)
  have b: "CHR ''['' \<notin> set ''+]''" by simp
  note t = unbalanced_command_with_open_bracket_rejected
  note r1 = t [where command = "'']['' " and fuel = 1 and s = initial, THEN conjunct1, THEN mp, OF a]
  note r2 = t [where command = "''+]''" and fuel = 1 and s = initial, THEN conjunct2, THEN mp, OF b,
      THEN conjunct1]
  show ?thesis
    by (rule conjI [OF a], rule conjI [OF r1], rule conjI [OF b], rule r2)
qed

section \<open>Bounds errors inside a block\<close>



section \<open>Classifying and matching brackets\<close>

text \<open>
  C4. \<^verbatim>\<open>is_open_block\<close> answers \<^verbatim>\<open>INVALID_BLOCK\<close> as soon as some prefix of the text has
  more closing than opening brackets, whatever follows that prefix; otherwise it answers
  \<^verbatim>\<open>CLOSED_BLOCK\<close> when the nesting of the whole text is zero and \<^verbatim>\<open>OPENED_BLOCK\<close> when
  it is positive. So a text whose nesting is never negative and ends at zero is closed.
\<close>

theorem is_open_block_classifies:
  "((\<exists>n\<le>length t. nesting (take n t) < 0) \<longrightarrow> is_open_block (t @ u) = INVALID_BLOCK)
   \<and> ((\<forall>n\<le>length t. 0 \<le> nesting (take n t)) \<and> nesting t = 0 \<longrightarrow> is_open_block t = CLOSED_BLOCK)
   \<and> ((\<forall>n\<le>length t. 0 \<le> nesting (take n t)) \<and> 0 < nesting t \<longrightarrow> is_open_block t = OPENED_BLOCK)
   \<and> is_open_block t \<in> {INVALID_BLOCK, CLOSED_BLOCK, OPENED_BLOCK}"
proof -
  have a: "(\<exists>n\<le>length t. nesting (take n t) < 0) \<longrightarrow> is_open_block (t @ u) = INVALID_BLOCK"
    using negative_prefix_append [of t u] by (simp only: is_open_block_eq [of "t @ u"]) simp
  have b: "(\<forall>n\<le>length t. 0 \<le> nesting (take n t)) \<and> nesting t = 0 \<longrightarrow> is_open_block t = CLOSED_BLOCK"
    by (simp only: is_open_block_eq [of t]) (auto simp: not_less)
  have c: "(\<forall>n\<le>length t. 0 \<le> nesting (take n t)) \<and> 0 < nesting t \<longrightarrow> is_open_block t = OPENED_BLOCK"
    by (simp only: is_open_block_eq [of t]) (auto simp: not_less)
  have d: "is_open_block t \<in> {INVALID_BLOCK, CLOSED_BLOCK, OPENED_BLOCK}"
    by (simp only: is_open_block_eq [of t]) simp
  from a b c d show ?thesis by blast
qed

theorem is_open_block_classifies_witness:
  "(\<exists>n\<le>length '']''. nesting (take n '']'') < 0)
   \<and> is_open_block ('']'' @ ''[+]'') = INVALID_BLOCK
   \<and> nesting ''[+]'' = 0 \<and> is_open_block ''[+]'' = CLOSED_BLOCK
   \<and> 0 < nesting ''[[-]'' \<and> is_open_block ''[[-]'' = OPENED_BLOCK"
proof -
  have a: "\<exists>n\<le>length '']''. nesting (take n '']'') < 0"
    by (simp add: ex_le_Suc nesting_Cons nesting_Nil)
  have b: "(\<forall>n\<le>length ''[+]''. 0 \<le> nesting (take n ''[+]'')) \<and> nesting ''[+]'' = 0"
    by (simp add: all_le_Suc nesting_Cons nesting_Nil)
  have c: "(\<forall>n\<le>length ''[[-]''. 0 \<le> nesting (take n ''[[-]'')) \<and> 0 < nesting ''[[-]''"
    by (simp add: all_le_Suc nesting_Cons nesting_Nil)
  note r1 = is_open_block_classifies [of "'']''" "''[+]''", THEN conjunct1, THEN mp, OF a]
  note r2 = is_open_block_classifies [of "''[+]''" "[]", THEN conjunct2, THEN conjunct1, THEN mp, OF b]
  note r3 = is_open_block_classifies [of "''[[-]''" "[]", THEN conjunct2, THEN conjunct2,
      THEN conjunct1, THEN mp, OF c]
  from b have b2: "nesting ''[+]'' = 0"
    by (rule conjunct2)
  from c have c2: "0 < nesting ''[[-]''"
    by (rule conjunct2)
  show ?thesis
    by (intro conjI) (rule a r1 b2 r2 c2 r3)+
qed

text \<open>
  C5. On a text that \<^verbatim>\<open>is_open_block\<close> classifies as closed and whose first opening
  bracket is at index \<open>b\<close>, \<^verbatim>\<open>find_closing\<close> returns the index \<open>e\<close> of a closing bracket
  after \<open>b\<close> such that the span from \<open>b\<close> through \<open>e\<close> has as many opening as closing
  brackets and none of its shorter non-empty prefixes has. On any text, it returns
  \<^verbatim>\<open>INVALID_BLOCK\<close> exactly when no closing bracket brings the counter back to zero.
\<close>

theorem find_closing_matches_first_open:
  "(is_open_block t = CLOSED_BLOCK \<and> strchr t CHR ''['' = Some b \<longrightarrow>
      (\<exists>e. find_closing t = int e \<and> b < e \<and> e < length t \<and> t ! b = CHR ''['' \<and> t ! e = CHR '']''
         \<and> count_list (take (e + 1 - b) (drop b t)) CHR ''[''
             = count_list (take (e + 1 - b) (drop b t)) CHR '']''
         \<and> (\<forall>k. 0 < k \<and> k < e + 1 - b \<longrightarrow>
               count_list (take k (drop b t)) CHR ''[''
                 \<noteq> count_list (take k (drop b t)) CHR '']'')))
   \<and> (find_closing t = INVALID_BLOCK \<longleftrightarrow>
        \<not> (\<exists>k<length t. t ! k = CHR '']'' \<and> nesting (take (Suc k) t) = 0))"
proof (intro conjI impI)
  assume a: "is_open_block t = CLOSED_BLOCK \<and> strchr t CHR ''['' = Some b"
  then obtain p rest where t: "t = p @ CHR ''['' # rest" and b: "length p = b"
    and p: "CHR ''['' \<notin> set p"
    using strchr_Some by blast
  from a t p obtain k where k: "k < length rest" "find_closing t = int (length p + 1 + k)"
    "rest ! k = CHR '']''" "1 + nesting (take (Suc k) rest) = 0"
    "\<forall>j<k. 1 \<le> 1 + nesting (take (Suc j) rest)"
    using find_closing_closed by blast
  define e where "e = b + 1 + k"
  have dr: "drop b t = CHR ''['' # rest" using t b by simp
  have sp: "e + 1 - b = Suc (Suc k)" by (simp add: e_def)
  have 1: "find_closing t = int e" using k(2) b by (simp add: e_def)
  have 2: "b < e" "e < length t" using k(1) t b by (simp_all add: e_def)
  have 3: "t ! b = CHR ''[''" using t b by (simp add: nth_append)
  have "t ! e = (CHR ''['' # rest) ! (1 + k)"
    unfolding t e_def b [symmetric] by (simp add: nth_append)
  then have 4: "t ! e = CHR '']''" using k(3) by simp
  have 5: "nesting (take (e + 1 - b) (drop b t)) = 0"
    unfolding sp dr using k(4) by (simp add: nesting_Cons)
  have 6: "nesting (take m (drop b t)) \<noteq> 0" if m: "0 < m \<and> m < e + 1 - b" for m
  proof (cases m)
    case 0
    with m show ?thesis by simp
  next
    case (Suc m')
    show ?thesis
    proof (cases m')
      case 0
      with Suc show ?thesis by (simp add: dr nesting_Cons nesting_Nil)
    next
      case (Suc j)
      with \<open>m = Suc m'\<close> m sp have "j < k" by simp
      with k(5) have "1 \<le> 1 + nesting (take (Suc j) rest)" by blast
      with Suc \<open>m = Suc m'\<close> show ?thesis by (simp add: dr nesting_Cons)
    qed
  qed
  from 1 2 3 4 5 6 show "\<exists>e. find_closing t = int e \<and> b < e \<and> e < length t \<and> t ! b = CHR ''[''
      \<and> t ! e = CHR '']''
      \<and> count_list (take (e + 1 - b) (drop b t)) CHR ''[''
          = count_list (take (e + 1 - b) (drop b t)) CHR '']''
      \<and> (\<forall>k. 0 < k \<and> k < e + 1 - b \<longrightarrow>
            count_list (take k (drop b t)) CHR ''[''
              \<noteq> count_list (take k (drop b t)) CHR '']'')"
    unfolding nesting_zero by blast
next
  show "find_closing t = INVALID_BLOCK \<longleftrightarrow>
        \<not> (\<exists>k<length t. t ! k = CHR '']'' \<and> nesting (take (Suc k) t) = 0)"
    using find_closing_loop_not_found [of 0 0 t] by (simp add: find_closing_def)
qed

theorem find_closing_matches_first_open_witness:
  "is_open_block ''+[>[-]<]-'' = CLOSED_BLOCK \<and> strchr ''+[>[-]<]-'' CHR ''['' = Some 1
   \<and> (\<exists>e. find_closing ''+[>[-]<]-'' = int e \<and> 1 < e \<and> e < length ''+[>[-]<]-''
          \<and> ''+[>[-]<]-'' ! 1 = CHR ''['' \<and> ''+[>[-]<]-'' ! e = CHR '']''
          \<and> count_list (take (e + 1 - 1) (drop 1 ''+[>[-]<]-'')) CHR ''[''
              = count_list (take (e + 1 - 1) (drop 1 ''+[>[-]<]-'')) CHR '']''
          \<and> (\<forall>k. 0 < k \<and> k < e + 1 - 1 \<longrightarrow>
                count_list (take k (drop 1 ''+[>[-]<]-'')) CHR ''[''
                  \<noteq> count_list (take k (drop 1 ''+[>[-]<]-'')) CHR '']''))"
proof -
  have a: "is_open_block ''+[>[-]<]-'' = CLOSED_BLOCK \<and> strchr ''+[>[-]<]-'' CHR ''['' = Some 1"
    by (simp add: is_open_block_def CLOSED_BLOCK_def INVALID_BLOCK_def OPENED_BLOCK_def)
  note r = find_closing_matches_first_open [of "''+[>[-]<]-''" 1, THEN conjunct1, THEN mp, OF a]
  from a have a1: "is_open_block ''+[>[-]<]-'' = CLOSED_BLOCK"
    and a2: "strchr ''+[>[-]<]-'' CHR ''['' = Some 1"
    by (rule conjunct1, rule conjunct2)
  show ?thesis
    by (intro conjI) (rule a1 a2 r)+
qed

section \<open>Loops\<close>

text \<open>
  C6. Running a block \<^verbatim>\<open>[body]\<close> is running the loop on its body. The loop tests the
  cell under the cursor: at zero it ends with the state unchanged; otherwise it runs the
  whole body, flat or nested, and only then tests the cell again. In particular
  \<^verbatim>\<open>[+]\<close> on a zero cell runs no iteration and returns the state as it was.
\<close>

theorem block_repeats_body_while_nonzero:
  "(is_open_block body = CLOSED_BLOCK \<longrightarrow>
      parse_block (Suc n) (CHR ''['' # body @ '']'') s = block_while n body s)
   \<and> (current_cell s < MEMORY_SIZE \<and> load s = 0 \<longrightarrow> block_while (Suc n) body s = Some (Inr s))
   \<and> (current_cell s < MEMORY_SIZE \<and> load s \<noteq> 0 \<and> CHR ''['' \<notin> set body \<longrightarrow>
        block_while (Suc n) body s = then_run (Some (parse_command body s)) (block_while n body))
   \<and> (current_cell s < MEMORY_SIZE \<and> load s \<noteq> 0 \<and> CHR ''['' \<in> set body \<longrightarrow>
        block_while (Suc n) body s = then_run (parse_block n body s) (block_while n body))
   \<and> (current_cell s < MEMORY_SIZE \<and> load s = 0 \<and> 2 \<le> fuel \<longrightarrow>
        parse_block fuel ''[+]'' s = Some (Inr s))"
proof -
  have split: "parse_block (Suc m) (CHR ''['' # body @ '']'') s = block_while m body s"
    if "is_open_block body = CLOSED_BLOCK" for body m
    using parse_block_split [of "[]" body m "[]" s, OF _ _ that]
    by (simp add: then_run_return)
  have plus: "is_open_block ''+'' = CLOSED_BLOCK"
    by (simp add: is_open_block_def)
  have zero: "parse_block fuel ''[+]'' s = Some (Inr s)"
    if a: "current_cell s < MEMORY_SIZE \<and> load s = 0 \<and> 2 \<le> fuel"
  proof -
    have "parse_block (Suc (Suc 0)) ''[+]'' s = block_while (Suc 0) ''+'' s"
      using split [OF plus, of "Suc 0"] by simp
    also have "\<dots> = Some (Inr s)"
      using a by (simp add: block_while_zero)
    finally have "parse_block (Suc (Suc 0)) ''[+]'' s = Some (Inr s)" .
    moreover from a have "Suc (Suc 0) \<le> fuel" by simp
    ultimately show ?thesis by (rule parse_block_fuel_mono)
  qed
  show ?thesis
  proof (intro conjI impI)
    assume "is_open_block body = CLOSED_BLOCK"
    then show "parse_block (Suc n) (CHR ''['' # body @ '']'') s = block_while n body s"
      by (rule split)
  next
    assume "current_cell s < MEMORY_SIZE \<and> load s = 0"
    then show "block_while (Suc n) body s = Some (Inr s)"
      by (simp add: block_while_zero)
  next
    assume "current_cell s < MEMORY_SIZE \<and> load s \<noteq> 0 \<and> CHR ''['' \<notin> set body"
    then show "block_while (Suc n) body s
        = then_run (Some (parse_command body s)) (block_while n body)"
      by (simp add: block_while_flat)
  next
    assume "current_cell s < MEMORY_SIZE \<and> load s \<noteq> 0 \<and> CHR ''['' \<in> set body"
    then show "block_while (Suc n) body s = then_run (parse_block n body s) (block_while n body)"
      by (simp add: block_while_nested)
  next
    assume "current_cell s < MEMORY_SIZE \<and> load s = 0 \<and> 2 \<le> fuel"
    then show "parse_block fuel ''[+]'' s = Some (Inr s)"
      by (rule zero)
  qed
qed

theorem block_repeats_body_while_nonzero_witness:
  "(is_open_block ''-'' = CLOSED_BLOCK
      \<and> parse_block (Suc 2) (CHR ''['' # ''-'' @ '']'') (store 1 initial)
          = block_while 2 ''-'' (store 1 initial))
   \<and> ((current_cell initial < MEMORY_SIZE \<and> load initial = 0)
      \<and> block_while (Suc 0) ''+'' initial = Some (Inr initial))
   \<and> ((current_cell (store 1 initial) < MEMORY_SIZE \<and> load (store 1 initial) \<noteq> 0
        \<and> CHR ''['' \<notin> set ''-'')
      \<and> block_while (Suc 1) ''-'' (store 1 initial)
          = then_run (Some (parse_command ''-'' (store 1 initial))) (block_while 1 ''-''))
   \<and> ((current_cell (store 1 initial) < MEMORY_SIZE \<and> load (store 1 initial) \<noteq> 0
        \<and> CHR ''['' \<in> set ''[-]'')
      \<and> block_while (Suc 3) ''[-]'' (store 1 initial)
          = then_run (parse_block 3 ''[-]'' (store 1 initial)) (block_while 3 ''[-]''))
   \<and> ((current_cell initial < MEMORY_SIZE \<and> load initial = 0 \<and> (2::nat) \<le> 2)
      \<and> parse_block 2 ''[+]'' initial = Some (Inr initial))"
proof -
  have h1: "is_open_block ''-'' = CLOSED_BLOCK"
    by (simp add: is_open_block_def)
  have h2: "current_cell initial < MEMORY_SIZE \<and> load initial = 0"
    using initial_on_tape by simp
  have h3: "current_cell (store 1 initial) < MEMORY_SIZE \<and> load (store 1 initial) \<noteq> 0
      \<and> CHR ''['' \<notin> set ''-''"
    using one_on_tape by simp
  have h4: "current_cell (store 1 initial) < MEMORY_SIZE \<and> load (store 1 initial) \<noteq> 0
      \<and> CHR ''['' \<in> set ''[-]''"
    using one_on_tape by simp
  have h5: "current_cell initial < MEMORY_SIZE \<and> load initial = 0 \<and> (2::nat) \<le> 2"
    using initial_on_tape by simp
  note t = block_repeats_body_while_nonzero
  note r1 = t [of "''-''" 2 "store 1 initial" 2, THEN conjunct1, THEN mp, OF h1]
  note r2 = t [of "''+''" 0 initial 2, THEN conjunct2, THEN conjunct1, THEN mp, OF h2]
  note r3 = t [of "''-''" 1 "store 1 initial" 2, THEN conjunct2, THEN conjunct2, THEN conjunct1,
      THEN mp, OF h3]
  note r4 = t [of "''[-]''" 3 "store 1 initial" 2, THEN conjunct2, THEN conjunct2, THEN conjunct2,
      THEN conjunct1, THEN mp, OF h4]
  note r5 = t [of "''+''" 0 initial 2, THEN conjunct2, THEN conjunct2, THEN conjunct2,
      THEN conjunct2, THEN mp, OF h5]
  show ?thesis
    by (intro conjI) (rule h1 r1 r2 r3 r4 r5 initial_on_tape one_on_tape | simp)+
qed

text \<open>
  C7. From the zeroed tape with the cursor at index 0, \<^verbatim>\<open>++++[>++++<-]>\<close> ends, given
  six units of fuel or more, with the cursor one cell to the right, 16 in that cell and 0
  in the first cell; nothing is read or printed.
\<close>

theorem sample_program_result:
  assumes "6 \<le> fuel"
  shows "\<exists>s'. parse_block fuel ''++++[>++++<-]>'' initial = Some (Inr s')
     \<and> main_dispatch fuel ''++++[>++++<-]>'' initial = Some (Inr s')
     \<and> current_cell s' = current_cell initial + 1
     \<and> memory s' ! current_cell s' = 16
     \<and> memory s' ! current_cell initial = 0
     \<and> s' = initial\<lparr>memory := (memory initial)[1 := 16], current_cell := 1\<rparr>"
proof -
  let ?s' = "initial\<lparr>memory := (memory initial)[1 := 16], current_cell := 1\<rparr>"
  have run: "parse_block fuel ''++++[>++++<-]>'' initial = Some (Inr ?s')"
    using sample_run_6 assms by (rule parse_block_fuel_mono)
  have "main_dispatch fuel ''++++[>++++<-]>'' initial = parse_block fuel ''++++[>++++<-]>'' initial"
    by (rule main_dispatch_closed) (simp_all add: is_open_block_def)
  with run have main: "main_dispatch fuel ''++++[>++++<-]>'' initial = Some (Inr ?s')"
    by (rule ssubst [where P = "\<lambda>x. x = Some (Inr ?s')", rotated])
  have cells: "current_cell ?s' = current_cell initial + 1" "memory ?s' ! current_cell ?s' = 16"
    "memory ?s' ! current_cell initial = 0"
    by (simp_all add: initial_def MEMORY_SIZE_def)
  from run main cells show ?thesis by blast
qed

theorem sample_program_result_witness:
  "(6::nat) \<le> 6 \<and> (\<exists>s'. parse_block 6 ''++++[>++++<-]>'' initial = Some (Inr s')
     \<and> current_cell s' = current_cell initial + 1
     \<and> memory s' ! current_cell s' = 16
     \<and> memory s' ! current_cell initial = 0)"
proof -
  have h: "(6::nat) \<le> 6" by simp
  from sample_program_result [OF h] obtain s' where
    "parse_block 6 ''++++[>++++<-]>'' initial = Some (Inr s')"
    "current_cell s' = current_cell initial + 1" "memory s' ! current_cell s' = 16"
    "memory s' ! current_cell initial = 0"
    by (elim exE conjE)
  then have "\<exists>s'. parse_block 6 ''++++[>++++<-]>'' initial = Some (Inr s')
     \<and> current_cell s' = current_cell initial + 1
     \<and> memory s' ! current_cell s' = 16
     \<and> memory s' ! current_cell initial = 0"
    by (intro exI [of _ s'] conjI)
  with h show ?thesis by (rule conjI)
qed

section \<open>The instructions on one cell\<close>

text \<open>
  C8. With the cursor on the tape, \<^verbatim>\<open>+\<close> and \<^verbatim>\<open>-\<close> add and subtract one from the
  cell under the cursor modulo 256 and return normally, printing nothing: 255 becomes 0
  and 0 becomes 255; read as a signed \<^verbatim>\<open>char\<close>, 127 becomes -128 and -128 becomes 127.
\<close>

theorem increment_decrement_wrap:
  assumes "current_cell s < MEMORY_SIZE" and "length (memory s) = MEMORY_SIZE"
  shows "(\<exists>s'. parse_command ''+'' s = Inr s'
            \<and> s' = s\<lparr>memory := (memory s)[current_cell s := load s + 1]\<rparr>
            \<and> unat (load s') = (unat (load s) + 1) mod 256
            \<and> (load s = 255 \<longrightarrow> load s' = 0)
            \<and> (sint (load s) = 127 \<longrightarrow> sint (load s') = - 128))
       \<and> (\<exists>s'. parse_command ''-'' s = Inr s'
            \<and> s' = s\<lparr>memory := (memory s)[current_cell s := load s - 1]\<rparr>
            \<and> unat (load s') = (unat (load s) + 255) mod 256
            \<and> (load s = 0 \<longrightarrow> load s' = 255)
            \<and> (sint (load s) = - 128 \<longrightarrow> sint (load s') = 127))"
proof -
  have inc: "parse_command ''+'' s = Inr (store (load s + 1) s)"
    using assms by (simp add: switch_plus)
  have dec: "parse_command ''-'' s = Inr (store (load s - 1) s)"
    using assms by (simp add: switch_minus)
  have ld: "load (store v s) = v" for v
    using assms by (simp add: load_store)
  show ?thesis
    unfolding inc dec
    by (simp add: ld unat_inc8 unat_dec8 sint8_127 sint8_m128) (simp add: store_def)
qed

theorem increment_decrement_wrap_witness:
  "current_cell initial < MEMORY_SIZE \<and> length (memory initial) = MEMORY_SIZE
   \<and> (\<exists>s'. parse_command ''+'' initial = Inr s' \<and> unat (load s') = 1)
   \<and> (\<exists>s'. parse_command ''-'' initial = Inr s' \<and> load s' = 255)"
proof -
  have c: "current_cell initial < MEMORY_SIZE" "length (memory initial) = MEMORY_SIZE"
    by (simp_all add: initial_def MEMORY_SIZE_def)
  have d: "load initial = 0"
    by (simp add: load_def initial_def MEMORY_SIZE_def)
  from increment_decrement_wrap [OF c] d
  have "(\<exists>s'. parse_command ''+'' initial = Inr s' \<and> unat (load s') = 1)
      \<and> (\<exists>s'. parse_command ''-'' initial = Inr s' \<and> load s' = 255)"
    by simp
  with c show ?thesis by simp
qed

text \<open>
  C9. A command without an opening bracket is run by \<^verbatim>\<open>parse_command\<close>, and two runs of
  it from states with the same tape, cursor and pending input end alike: both with the
  same fault, or both with the same tape, cursor and pending input. Nothing else in the
  state, such as what has been printed before, has any influence.
\<close>

theorem flat_command_result_depends_on_tape_only:
  assumes "CHR ''['' \<notin> set command" and "tape_state s1 = tape_state s2"
  shows "main_dispatch fuel command s1 = Some (parse_command command s1)
     \<and> main_dispatch fuel command s2 = Some (parse_command command s2)
     \<and> map_sum id tape_state (parse_command command s1)
         = map_sum id tape_state (parse_command command s2)"
proof (intro conjI)
  show "main_dispatch fuel command s1 = Some (parse_command command s1)"
    using assms(1) by (rule main_dispatch_flat)
  show "main_dispatch fuel command s2 = Some (parse_command command s2)"
    using assms(1) by (rule main_dispatch_flat)
  show "map_sum id tape_state (parse_command command s1)
      = map_sum id tape_state (parse_command command s2)"
    using assms(2) by (rule parse_command_tape_state)
qed

theorem flat_command_result_depends_on_tape_only_witness:
  "CHR ''['' \<notin> set ''+>,.'' \<and> tape_state initial = tape_state (printf ''x'' initial)
   \<and> map_sum id tape_state (parse_command ''+>,.'' initial)
       = map_sum id tape_state (parse_command ''+>,.'' (printf ''x'' initial))"
proof -
  have a: "CHR ''['' \<notin> set ''+>,.''" by simp
  have b: "tape_state initial = tape_state (printf ''x'' initial)"
    by (simp add: tape_state_printf)
  note r = flat_command_result_depends_on_tape_only [OF a b, of 0, THEN conjunct2, THEN conjunct2]
  show ?thesis
    by (intro conjI) (rule a b r)+
qed

text \<open>
  C10. With the cursor on the tape, \<^verbatim>\<open>,\<close> stores the result of \<^verbatim>\<open>getchar\<close> cut to
  eight bits: at the end of input the cell becomes \<open>0xFF\<close>, whatever it held, and the
  cell is overwritten with zero exactly when the character read is a newline.
\<close>

theorem comma_stores_truncated_getchar:
  assumes "current_cell s < MEMORY_SIZE" and "length (memory s) = MEMORY_SIZE"
  shows "\<exists>s'. parse_command '','' s = Inr s'
      \<and> load s' = (if fst (getchar s) = 10 then 0 else word_of_int (fst (getchar s)))
      \<and> current_cell s' = current_cell s
      \<and> stdin s' = tl (stdin s)
      \<and> (stdin s = [] \<longrightarrow> fst (getchar s) = EOF \<and> load s' = 0xFF)
      \<and> (\<forall>c cs. stdin s = c # cs \<longrightarrow> fst (getchar s) = of_char c
            \<and> load s' = (if c = CHR 0x0A then 0 else word_of_int (of_char c)))"
proof -
  let ?ch = "fst (getchar s)"
  let ?s1 = "snd (getchar s)"
  have s1: "current_cell ?s1 = current_cell s" "memory ?s1 = memory s"
    by (simp_all add: getchar_def split: list.splits)
  have in1: "current_cell ?s1 < length (memory ?s1)"
    using assms s1 by simp
  have nl: "(word_of_int ?ch :: 8 word) = 10 \<longleftrightarrow> ?ch = 10"
  proof (cases "stdin s")
    case Nil
    then show ?thesis by (simp add: getchar_def EOF_def)
  next
    case (Cons c cs)
    have "(of_char c :: int) = 10 \<longleftrightarrow> c = CHR 0x0A"
      using of_char_eq_iff [of c "CHR 0x0A", where ?'a = int] by simp
    with Cons show ?thesis by (simp add: getchar_def word8_of_char_newline)
  qed
  define s2 where "s2 = store (word_of_int ?ch) ?s1"
  define s3 where "s3 = (if load s2 = 10 then store 0 s2 else s2)"
  have run: "parse_command '','' s = Inr s3"
    using assms by (simp add: switch_comma Let_def s2_def s3_def)
  have l2: "load s2 = word_of_int ?ch"
    unfolding s2_def using in1 by (rule load_store)
  have in2: "current_cell s2 < length (memory s2)"
    using in1 by (simp add: s2_def store_def)
  have l3: "load s3 = (if ?ch = 10 then 0 else word_of_int ?ch)"
    using l2 nl in2 by (simp add: s3_def load_store)
  have cc: "current_cell s3 = current_cell s"
    by (simp add: s3_def s2_def store_def s1)
  have si: "stdin s3 = tl (stdin s)"
    by (simp add: s3_def s2_def store_def getchar_def split: list.splits)
  have eof: "stdin s = [] \<Longrightarrow> ?ch = EOF \<and> load s3 = 0xFF"
    using l3 by (simp add: getchar_def EOF_def)
  have chr: "stdin s = c # cs \<Longrightarrow> ?ch = of_char c
      \<and> load s3 = (if c = CHR 0x0A then 0 else word_of_int (of_char c))" for c cs
    using l2 in2 by (simp add: s3_def load_store getchar_def word8_of_char_newline)
  show ?thesis
    using run l3 cc si eof chr by blast
qed

theorem comma_stores_truncated_getchar_witness:
  "current_cell initial < MEMORY_SIZE \<and> length (memory initial) = MEMORY_SIZE
   \<and> (\<exists>s'. parse_command '','' initial = Inr s' \<and> load s' = 0xFF)"
proof -
  have c: "current_cell initial < MEMORY_SIZE" "length (memory initial) = MEMORY_SIZE"
    by (simp_all add: initial_def MEMORY_SIZE_def)
  have "stdin initial = []" by (simp add: initial_def)
  then show ?thesis
    using comma_stores_truncated_getchar [OF c] c by auto
qed

end
